theory Spec2Isabelle
  imports
    Complex_Main
    "HOL-Library.Sublist"
    "HOL-Library.Char_ord"
    "HOL-Library.List_Lexorder"
    "HOL-Library.Product_Lexorder"
    "HOL-Library.Multiset"
begin

section \<open>Data model\<close>

text \<open>
  The script keeps one pandas DataFrame, \<open>self.data\<close>. A DataFrame is modelled by its
  column labels and its rows, every row holding one cell per column, in column order.
  A cell is a null, a string, a number, a timestamp or a monthly period. There are two
  nulls: \<open>Null\<close> is None, the null of an object column (and NaT, the null of a date),
  \<open>NaN\<close> is the float that \<open>read_csv\<close> puts where a cell is blank.
  Text is ASCII text. The row index (a RangeIndex that every column assignment of the
  script is aligned with) is not part of the model, and of the pandas dtypes only what the
  \<open>.str\<close> accessor asks of a column is, see \<open>str_accessor_ok\<close>.
  A timestamp is (year, month, day, time of day), ordered lexicographically, that is,
  chronologically.
\<close>

type_synonym timestamp = "int \<times> nat \<times> nat \<times> nat"

datatype cell = Null | NaN | Str string | Num rat | Time timestamp | Period int nat

definition isnull :: "cell \<Rightarrow> bool" where
  "isnull v = (v = Null \<or> v = NaN)"

fun is_str :: "cell \<Rightarrow> bool" where
  "is_str (Str s) = True"
| "is_str _ = False"

record dataframe =
  columns :: "string list"
  rows :: "cell list list"

datatype error = AttributeError | KeyError string

definition well_formed :: "dataframe \<Rightarrow> bool" where
  "well_formed df = (distinct (columns df) \<and> list_all (\<lambda>r. length r = length (columns df)) (rows df))"

fun cell_of :: "string list \<Rightarrow> string \<Rightarrow> cell list \<Rightarrow> cell" where
  "cell_of (k # ks) c (x # xs) = (if k = c then x else cell_of ks c xs)"
| "cell_of _ c _ = Null"

fun set_cell :: "string list \<Rightarrow> string \<Rightarrow> cell \<Rightarrow> cell list \<Rightarrow> cell list" where
  "set_cell (k # ks) c v (x # xs) = (if k = c then v else x) # set_cell ks c v xs"
| "set_cell _ c v xs = xs"

text \<open>\<open>df[c]\<close>, read: the cells of column \<open>c\<close>, one per row.\<close>

definition getitem :: "dataframe \<Rightarrow> string \<Rightarrow> cell list" where
  "getitem df c = map (cell_of (columns df) c) (rows df)"

text \<open>\<open>df[c] = values\<close>: the column is overwritten when it exists and appended otherwise.\<close>

definition setitem :: "string \<Rightarrow> cell list \<Rightarrow> dataframe \<Rightarrow> dataframe" where
  "setitem c vs df =
     (if c \<in> set (columns df)
      then df\<lparr>rows := map2 (\<lambda>v r. set_cell (columns df) c v r) vs (rows df)\<rparr>
      else df\<lparr>columns := columns df @ [c], rows := map2 (\<lambda>v r. r @ [v]) vs (rows df)\<rparr>)"

text \<open>\<open>df[c] = v\<close> for a scalar \<open>v\<close>: the scalar is broadcast to every row.\<close>

definition setitem_scalar :: "string \<Rightarrow> cell \<Rightarrow> dataframe \<Rightarrow> dataframe" where
  "setitem_scalar c v df = setitem c (replicate (length (rows df)) v) df"

text \<open>\<open>df.loc[mask, c] = v\<close> for a column \<open>c\<close> of the frame.\<close>

definition loc_assign :: "bool list \<Rightarrow> string \<Rightarrow> cell \<Rightarrow> dataframe \<Rightarrow> dataframe" where
  "loc_assign msk c v df =
     df\<lparr>rows := map2 (\<lambda>m r. if m then set_cell (columns df) c v r else r) msk (rows df)\<rparr>"

section \<open>Strings\<close>

definition upper_char :: "char \<Rightarrow> char" where
  "upper_char c =
     (case map_of (zip ''abcdefghijklmnopqrstuvwxyz'' ''ABCDEFGHIJKLMNOPQRSTUVWXYZ'') c of
        Some u \<Rightarrow> u | None \<Rightarrow> c)"

definition upper :: "string \<Rightarrow> string" where
  "upper s = map upper_char s"

fun startswith :: "string \<Rightarrow> string \<Rightarrow> bool" where
  "startswith [] s = True"
| "startswith (p # ps) [] = False"
| "startswith (p # ps) (c # cs) = (p = c \<and> startswith ps cs)"

fun find_sub :: "string \<Rightarrow> string \<Rightarrow> bool" where
  "find_sub pat [] = (pat = [])"
| "find_sub pat (c # cs) = (startswith pat (c # cs) \<or> find_sub pat cs)"

text \<open>
  The patterns the script hands to the regular-expression engine consist of literal
  characters and the alternation bar only: \<open>split_bar\<close> yields the alternatives and
  \<open>re_search\<close> looks for any of them anywhere in the text, ignoring case on request.
\<close>

fun split_bar :: "string \<Rightarrow> string list" where
  "split_bar [] = [[]]"
| "split_bar (c # cs) =
     (if c = CHR ''|'' then [] # split_bar cs
      else (c # hd (split_bar cs)) # tl (split_bar cs))"

definition re_search :: "bool \<Rightarrow> string \<Rightarrow> string \<Rightarrow> bool" where
  "re_search ignorecase pat s =
     list_ex (\<lambda>alt. if ignorecase then find_sub (upper alt) (upper s) else find_sub alt s)
       (split_bar pat)"

text \<open>
  \<open>Series.str\<close>: before it looks at any element, the accessor infers the kind of the whole
  column and raises AttributeError ("Can only use .str accessor with string values!")
  unless the kind is string, mixed or empty. A column that \<open>read_csv\<close> found blank or
  numeric in every row is a float or integer column and is refused, whatever it holds. An
  object column is judged on its values that are not null: it is accepted with a string
  among them, accepted with none at all (empty), refused with numbers only. A column of
  nulls is an object column when it has no row or holds a None, which is what
  \<open>df[c] = None\<close> fills a missing column with; a frame without rows is taken
  not to change the kind of a concatenation.
\<close>

definition str_accessor_ok :: "cell list \<Rightarrow> bool" where
  "str_accessor_ok vs =
     (list_ex is_str vs
      \<or> (list_all isnull vs \<and> (vs = [] \<or> list_ex (\<lambda>v. v = Null) vs)))"

text \<open>\<open>Series.str.upper()\<close> on one element: what is not a string becomes NaN.\<close>

fun str_upper :: "cell \<Rightarrow> cell" where
  "str_upper (Str s) = Str (upper s)"
| "str_upper _ = NaN"

text \<open>
  \<open>Series.str.contains(pat, case=..., na=False)\<close> on one element: what is not a
  string is null for the accessor and yields the \<open>na\<close> value.
\<close>

fun str_contains :: "string \<Rightarrow> bool \<Rightarrow> cell \<Rightarrow> bool" where
  "str_contains pat cs (Str s) = re_search (\<not> cs) pat s"
| "str_contains pat cs _ = False"

section \<open>The categorizer\<close>

definition create_category_mapping :: "(string \<times> string) list" where
  "create_category_mapping =
    [(''PLANE CONNECTION'', ''Business''),
     (''PLANE CONNECTION LLC'', ''Business''),
     (''PLANE CONNECT'', ''Business''),
     (''TITAN AVIATION'', ''Business''),
     (''ADP FEES'', ''Business''),
     (''PAYROLL'', ''Business''),
     (''LUMIS'', ''Business''),
     (''LUMIS INC'', ''Business''),
     (''LAW SCHOOL'', ''Law School''),
     (''BARBRI'', ''Law School''),
     (''BAR EXAM'', ''Law School''),
     (''LEGAL EDUCATION'', ''Law School''),
     (''WESTLAW'', ''Law School''),
     (''LEXIS'', ''Law School''),
     (''HOMESCHOOL'', ''Homeschool''),
     (''CURRICULUM'', ''Homeschool''),
     (''EDUCATIONAL'', ''Homeschool''),
     (''BOOKS & SUPPLIES'', ''Homeschool''),
     (''ADOBE'', ''Subscription''),
     (''AMAZON PRIME'', ''Subscription''),
     (''NETFLIX'', ''Subscription''),
     (''HULU'', ''Subscription''),
     (''SPOTIFY'', ''Subscription''),
     (''GROCERIES'', ''Personal''),
     (''RESTAURANTS'', ''Personal''),
     (''ENTERTAINMENT'', ''Personal''),
     (''SHOPPING'', ''Personal''),
     (''UTILITIES'', ''Personal''),
     (''CREDIT CARD PAYMENT'', ''Financial''),
     (''TRANSFER'', ''Financial''),
     (''PAYCHECK'', ''Income''),
     (''INTEREST INCOME'', ''Income'')]"

text \<open>One turn of the loop over the mapping: the mask, then the masked assignment.\<close>

definition apply_rule :: "string \<times> string \<Rightarrow> dataframe \<Rightarrow> dataframe" where
  "apply_rule rule df =
     loc_assign (map (str_contains (fst rule) True) (map str_upper (getitem df ''Description'')))
       ''Category'' (Str (snd rule)) df"

definition apply_keyword_rules :: "(string \<times> string) list \<Rightarrow> dataframe \<Rightarrow> dataframe" where
  "apply_keyword_rules mapping df = fold apply_rule mapping df"

definition nh_override :: "dataframe \<Rightarrow> dataframe" where
  "nh_override df =
     loc_assign (map (str_contains ''NH|NEW HAMPSHIRE'' False) (getitem df ''Description''))
       ''Category'' (Str ''Law School'') df"

text \<open>
  \<open>_categorize_transactions\<close>. The category column is set first. The first turn of the
  loop reads the description column, which raises KeyError when the frame has none, and
  opens the \<open>.str\<close> accessor on it, which raises AttributeError when the column is
  refused; nothing catches either, the call is outside the loader's \<open>try\<close>. The
  accessor of \<open>.str.upper()\<close>'s result and the one of the override see a column of
  the same kind and raise nothing more.
\<close>

definition categorize_transactions :: "dataframe \<Rightarrow> error + dataframe" where
  "categorize_transactions data =
     (let d0 = setitem_scalar ''Category'' (Str ''Uncategorized'') data in
      if ''Description'' \<notin> set (columns d0) then Inl (KeyError ''Description'')
      else if \<not> str_accessor_ok (getitem d0 ''Description'') then Inl AttributeError
      else Inr (nh_override (apply_keyword_rules create_category_mapping d0)))"

text \<open>
  The same computation read one row at a time: the category a description ends with
  after the keyword loop, and after the override.
\<close>

definition keyword_category :: "(string \<times> string) list \<Rightarrow> string \<Rightarrow> cell \<Rightarrow> string" where
  "keyword_category mapping init desc =
     fold (\<lambda>rule acc. if str_contains (fst rule) True (str_upper desc) then snd rule else acc)
       mapping init"

definition final_category :: "cell \<Rightarrow> string" where
  "final_category desc =
     (if str_contains ''NH|NEW HAMPSHIRE'' False desc then ''Law School''
      else keyword_category create_category_mapping ''Uncategorized'' desc)"

text \<open>
  The two masked assignments and the initial column assignment, each read on a single row;
  the lemmas below show that the frame operations act row by row as these do.
\<close>

definition rule_row :: "string list \<Rightarrow> string \<times> string \<Rightarrow> cell list \<Rightarrow> cell list" where
  "rule_row cols rule r =
     (if str_contains (fst rule) True (str_upper (cell_of cols ''Description'' r))
      then set_cell cols ''Category'' (Str (snd rule)) r else r)"

definition nh_row :: "string list \<Rightarrow> cell list \<Rightarrow> cell list" where
  "nh_row cols r =
     (if str_contains ''NH|NEW HAMPSHIRE'' False (cell_of cols ''Description'' r)
      then set_cell cols ''Category'' (Str ''Law School'') r else r)"

definition init_row :: "string list \<Rightarrow> string \<Rightarrow> cell \<Rightarrow> cell list \<Rightarrow> cell list" where
  "init_row cols c v r = (if c \<in> set cols then set_cell cols c v r else r @ [v])"

text \<open>
  What the specification calls "contains, case-insensitively": the upper-cased pattern is a
  contiguous sublist of the upper-cased text.
\<close>

definition contains_ci :: "string \<Rightarrow> string \<Rightarrow> bool" where
  "contains_ci pat s = sublist (upper pat) (upper s)"

section \<open>The schema normalizer\<close>








section \<open>Example inputs\<close>

text \<open>A frame as \<open>read_csv\<close> yields it, one row per given description.\<close>

definition frame_of :: "cell list \<Rightarrow> dataframe" where
  "frame_of descs =
     \<lparr>columns = [''Date'', ''Description'', ''Amount''],
      rows = map (\<lambda>d. [Str ''2024-01-05'', d, Num 5]) descs\<rparr>"


section \<open>Cells and rows\<close>

lemma length_set_cell [simp]: "length (set_cell ks c v xs) = length xs"
  by (induction ks c v xs rule: set_cell.induct) simp_all

lemma cell_of_set_cell_same:
  "c \<in> set ks \<Longrightarrow> length xs = length ks \<Longrightarrow> cell_of ks c (set_cell ks c v xs) = v"
  by (induction ks c v xs rule: set_cell.induct) auto

lemma cell_of_set_cell_other:
  "c' \<noteq> c \<Longrightarrow> cell_of ks c' (set_cell ks c v xs) = cell_of ks c' xs"
  by (induction ks c v xs rule: set_cell.induct) auto

lemma map2_map_same: "map2 f (map g xs) xs = map (\<lambda>x. f (g x) x) xs"
  by (induction xs) simp_all

lemma map2_replicate_same: "map2 f (replicate (length xs) v) xs = map (f v) xs"
  by (induction xs) simp_all

section \<open>String search\<close>

lemma startswith_prefix: "startswith p s = prefix p s"
  by (induction p s rule: startswith.induct) simp_all

lemma find_sub_sublist: "find_sub p s = sublist p s"
  by (induction p s rule: find_sub.induct) (simp_all add: startswith_prefix sublist_Cons_right)

lemma columns_apply_rule [simp]: "columns (apply_rule rule df) = columns df"
  by (simp add: apply_rule_def loc_assign_def)

lemma rows_apply_rule: "rows (apply_rule rule df) = map (rule_row (columns df) rule) (rows df)"
proof -
  have "map (str_contains (fst rule) True) (map str_upper (getitem df ''Description''))
        = map (\<lambda>r. str_contains (fst rule) True (str_upper (cell_of (columns df) ''Description'' r))) (rows df)"
    by (simp add: getitem_def)
  then show ?thesis
    by (simp add: apply_rule_def loc_assign_def map2_map_same rule_row_def)
qed

lemma columns_apply_keyword_rules [simp]: "columns (apply_keyword_rules m df) = columns df"
  unfolding apply_keyword_rules_def by (induction m arbitrary: df) simp_all

lemma rows_apply_keyword_rules:
  "rows (apply_keyword_rules m df) = map (fold (rule_row (columns df)) m) (rows df)"
  unfolding apply_keyword_rules_def
proof (induction m arbitrary: df)
  case Nil
  show ?case by simp
next
  case (Cons rule m)
  show ?case by (simp add: Cons.IH rows_apply_rule)
qed

lemma length_rule_row [simp]: "length (rule_row cols rule r) = length r"
  by (simp add: rule_row_def)

lemma length_fold_rule_row [simp]: "length (fold (rule_row cols) m r) = length r"
  by (induction m arbitrary: r) simp_all

lemma cell_of_rule_row_other:
  "c \<noteq> ''Category'' \<Longrightarrow> cell_of cols c (rule_row cols rule r) = cell_of cols c r"
  by (simp add: rule_row_def cell_of_set_cell_other)

lemma cell_of_fold_rule_row_other:
  "c \<noteq> ''Category'' \<Longrightarrow> cell_of cols c (fold (rule_row cols) m r) = cell_of cols c r"
  by (induction m arbitrary: r) (simp_all add: cell_of_rule_row_other)

lemma cell_of_fold_rule_row_category:
  assumes "''Category'' \<in> set cols" and "length r = length cols"
    and "cell_of cols ''Category'' r = Str init"
  shows "cell_of cols ''Category'' (fold (rule_row cols) m r)
         = Str (keyword_category m init (cell_of cols ''Description'' r))"
  using assms(2,3)
proof (induction m arbitrary: r init)
  case Nil
  then show ?case by (simp add: keyword_category_def)
next
  case (Cons rule m)
  let ?r' = "rule_row cols rule r"
  let ?init' = "if str_contains (fst rule) True (str_upper (cell_of cols ''Description'' r)) then snd rule else init"
  have len: "length ?r' = length cols" using Cons.prems by simp
  have cat: "cell_of cols ''Category'' ?r' = Str ?init'"
    using Cons.prems assms(1) by (simp add: rule_row_def cell_of_set_cell_same)
  have desc: "cell_of cols ''Description'' ?r' = cell_of cols ''Description'' r"
    by (simp add: cell_of_rule_row_other)
  from Cons.IH[OF len cat] show ?case
    by (simp add: desc keyword_category_def)
qed


lemma cell_of_append_other:
  "length r = length ks \<Longrightarrow> c' \<noteq> c \<Longrightarrow> cell_of (ks @ [c]) c' (r @ [v]) = cell_of ks c' r"
  by (induction ks c' r rule: cell_of.induct) auto

lemma cell_of_append_new:
  "length r = length ks \<Longrightarrow> c \<notin> set ks \<Longrightarrow> cell_of (ks @ [c]) c (r @ [v]) = v"
  by (induction ks c r rule: cell_of.induct) auto

lemma columns_setitem_scalar:
  "columns (setitem_scalar c v df) = (if c \<in> set (columns df) then columns df else columns df @ [c])"
  by (simp add: setitem_scalar_def setitem_def)

lemma rows_setitem_scalar:
  "rows (setitem_scalar c v df) =
     (if c \<in> set (columns df) then map (set_cell (columns df) c v) (rows df)
      else map (\<lambda>r. r @ [v]) (rows df))"
  by (simp add: setitem_scalar_def setitem_def map2_replicate_same)


lemma rows_setitem_scalar_init_row:
  "rows (setitem_scalar c v df) = map (init_row (columns df) c v) (rows df)"
  by (simp add: rows_setitem_scalar init_row_def)

lemma init_row_same:
  "length r = length cols \<Longrightarrow>
   cell_of (columns (setitem_scalar c v (df\<lparr>columns := cols\<rparr>))) c (init_row cols c v r) = v"
  by (simp add: columns_setitem_scalar init_row_def cell_of_set_cell_same cell_of_append_new)

lemma init_row_other:
  "length r = length cols \<Longrightarrow> c' \<noteq> c \<Longrightarrow>
   cell_of (columns (setitem_scalar c v (df\<lparr>columns := cols\<rparr>))) c' (init_row cols c v r) = cell_of cols c' r"
  by (simp add: columns_setitem_scalar init_row_def cell_of_set_cell_other cell_of_append_other)

lemma length_init_row:
  "length r = length cols \<Longrightarrow>
   length (init_row cols c v r) = length (columns (setitem_scalar c v (df\<lparr>columns := cols\<rparr>)))"
  by (simp add: columns_setitem_scalar init_row_def)

lemma columns_nh_override [simp]: "columns (nh_override df) = columns df"
  by (simp add: nh_override_def loc_assign_def)

lemma rows_nh_override: "rows (nh_override df) = map (nh_row (columns df)) (rows df)"
  by (simp add: nh_override_def loc_assign_def getitem_def map2_map_same nh_row_def)

lemma getitem_setitem_scalar_other:
  assumes "well_formed df" and "c' \<noteq> c"
  shows "getitem (setitem_scalar c v df) c' = getitem df c'"
proof -
  have len: "\<forall>r\<in>set (rows df). length r = length (columns df)"
    using assms(1) by (simp add: well_formed_def list_all_iff)
  have "cell_of (columns (setitem_scalar c v df)) c' (init_row (columns df) c v r)
          = cell_of (columns df) c' r" if "r \<in> set (rows df)" for r
    using init_row_other[of r "columns df" c' c v df] len that assms(2) by simp
  then show ?thesis
    by (simp add: getitem_def rows_setitem_scalar_init_row cong: map_cong)
qed

lemma str_accessor_ok_row:
  assumes "i < length (rows df)" and "cell_of (columns df) c (rows df ! i) = Str d"
  shows "str_accessor_ok (getitem df c)"
proof -
  have "getitem df c ! i = Str d" and "i < length (getitem df c)"
    using assms by (simp_all add: getitem_def)
  then have "Str d \<in> set (getitem df c)" by (metis nth_mem)
  then have "list_ex is_str (getitem df c)"
    unfolding list_ex_iff by (rule bexI[rotated]) simp
  then show ?thesis by (simp add: str_accessor_ok_def)
qed

lemma categorize_rows:
  assumes wf: "well_formed data" and desc: "''Description'' \<in> set (columns data)"
    and ok: "str_accessor_ok (getitem data ''Description'')"
  shows "\<exists>out. categorize_transactions data = Inr out
           \<and> length (rows out) = length (rows data)
           \<and> (\<forall>i<length (rows data).
                cell_of (columns out) ''Category'' (rows out ! i)
                  = Str (final_category (cell_of (columns data) ''Description'' (rows data ! i)))
                \<and> (\<forall>c. c \<noteq> ''Category'' \<longrightarrow>
                     cell_of (columns out) c (rows out ! i) = cell_of (columns data) c (rows data ! i)))"
proof -
  let ?dz = "setitem_scalar ''Category'' (Str ''Uncategorized'') data"
  let ?cols = "columns ?dz"
  let ?out = "nh_override (apply_keyword_rules create_category_mapping ?dz)"
  have d0: "?dz = setitem_scalar ''Category'' (Str ''Uncategorized'') (data\<lparr>columns := columns data\<rparr>)"
    by simp
  have desc0: "''Description'' \<in> set ?cols"
    using desc by (simp add: columns_setitem_scalar)
  have cat0: "''Category'' \<in> set ?cols"
    by (simp add: columns_setitem_scalar)
  have ok0: "str_accessor_ok (getitem ?dz ''Description'')"
    using ok getitem_setitem_scalar_other[OF wf, of "''Description''" "''Category''"] by simp
  have res: "categorize_transactions data = Inr ?out"
    using desc0 ok0 by (simp add: categorize_transactions_def Let_def)
  have rows_out: "rows ?out = map (\<lambda>r. nh_row ?cols (fold (rule_row ?cols) create_category_mapping
                     (init_row (columns data) ''Category'' (Str ''Uncategorized'') r))) (rows data)"
    by (simp add: rows_nh_override rows_apply_keyword_rules rows_setitem_scalar_init_row)
  have per_row: "cell_of ?cols ''Category'' (rows ?out ! i)
                  = Str (final_category (cell_of (columns data) ''Description'' (rows data ! i)))
                \<and> (\<forall>c. c \<noteq> ''Category'' \<longrightarrow>
                     cell_of ?cols c (rows ?out ! i) = cell_of (columns data) c (rows data ! i))"
    if i: "i < length (rows data)" for i
  proof -
    let ?r = "rows data ! i"
    let ?ini = "init_row (columns data) ''Category'' (Str ''Uncategorized'') ?r"
    let ?kw = "fold (rule_row ?cols) create_category_mapping ?ini"
    have len: "length ?r = length (columns data)"
      using wf i by (simp add: well_formed_def list_all_length)
    have len0: "length ?ini = length ?cols"
      using length_init_row[OF len, of "''Category''" "Str ''Uncategorized''" data] by simp
    have c0: "cell_of ?cols ''Category'' ?ini = Str ''Uncategorized''"
      using init_row_same[OF len, of "''Category''" "Str ''Uncategorized''" data] by simp
    have o0: "cell_of ?cols c ?ini = cell_of (columns data) c ?r" if "c \<noteq> ''Category''" for c
      using init_row_other[OF len that, of "Str ''Uncategorized''" data] by simp
    have c1: "cell_of ?cols ''Category'' ?kw
              = Str (keyword_category create_category_mapping ''Uncategorized''
                       (cell_of (columns data) ''Description'' ?r))"
      using cell_of_fold_rule_row_category[OF cat0 len0 c0, of create_category_mapping]
      by (simp add: o0)
    have o1: "cell_of ?cols c ?kw = cell_of (columns data) c ?r" if "c \<noteq> ''Category''" for c
      using that by (simp add: cell_of_fold_rule_row_other o0)
    have len1: "length ?kw = length ?cols" using len0 by simp
    have nth: "rows ?out ! i = nh_row ?cols ?kw"
      using i by (simp add: rows_out)
    have "cell_of ?cols ''Category'' (nh_row ?cols ?kw)
            = Str (final_category (cell_of (columns data) ''Description'' ?r))"
      using c1 o1[of "''Description''"] cat0 len1
      by (simp add: nh_row_def final_category_def cell_of_set_cell_same)
    moreover have "cell_of ?cols c (nh_row ?cols ?kw) = cell_of (columns data) c ?r"
      if "c \<noteq> ''Category''" for c
      using that o1[OF that] by (simp add: nh_row_def cell_of_set_cell_other)
    ultimately show ?thesis using nth by simp
  qed
  have "length (rows ?out) = length (rows data)" by (simp add: rows_out)
  with res per_row show ?thesis by simp
qed

section \<open>Patterns and keywords\<close>

lemma upper_append: "upper (xs @ ys) = upper xs @ upper ys"
  by (simp add: upper_def)

lemma split_bar_no_bar: "CHR ''|'' \<notin> set k \<Longrightarrow> split_bar k = [k]"
  by (induction k) auto

lemma split_bar_nh: "split_bar ''NH|NEW HAMPSHIRE'' = [''NH'', ''NEW HAMPSHIRE'']"
  by simp

lemma upper_nh: "upper ''NH'' = ''NH''" "upper ''NEW HAMPSHIRE'' = ''NEW HAMPSHIRE''"
  by code_simp+

lemma nh_contains:
  "str_contains ''NH|NEW HAMPSHIRE'' False (Str d)
     = (contains_ci ''NH'' d \<or> contains_ci ''NEW HAMPSHIRE'' d)"
  by (simp add: re_search_def split_bar_nh find_sub_sublist contains_ci_def del: split_bar.simps)

lemma keyword_contains:
  "CHR ''|'' \<notin> set k \<Longrightarrow> upper k = k \<Longrightarrow>
   str_contains k True (str_upper (Str d)) = contains_ci k d"
  by (simp add: re_search_def split_bar_no_bar find_sub_sublist contains_ci_def)

lemma mapping_keywords_literal:
  "list_all (\<lambda>rule. CHR ''|'' \<notin> set (fst rule) \<and> upper (fst rule) = fst rule) create_category_mapping"
  by code_simp

lemma keyword_category_null: "\<not> is_str d \<Longrightarrow> keyword_category m init d = init"
  unfolding keyword_category_def by (induction m) (cases d; simp)+

lemma keyword_category_range: "keyword_category m init d \<in> set (init # map snd m)"
  unfolding keyword_category_def
proof (induction m arbitrary: init)
  case Nil show ?case by simp
next
  case (Cons rule m)
  from Cons.IH[of "if str_contains (fst rule) True (str_upper d) then snd rule else init"]
  show ?case by (auto split: if_splits)
qed

lemma keyword_category_no_match:
  "\<forall>rule\<in>set m. \<not> str_contains (fst rule) True (str_upper d) \<Longrightarrow> keyword_category m init d = init"
  unfolding keyword_category_def by (induction m) simp_all

lemma keyword_category_last_match:
  assumes "str_contains (fst rule) True (str_upper d)"
    and "\<forall>r\<in>set ys. \<not> str_contains (fst r) True (str_upper d)"
  shows "keyword_category (xs @ rule # ys) init d = snd rule"
  using assms keyword_category_no_match[of ys d "snd rule"]
  by (simp add: keyword_category_def)

lemma upper_char_nh:
  "upper_char (CHR ''N'') = CHR ''N''" "upper_char (CHR ''n'') = CHR ''N''"
  "upper_char (CHR ''H'') = CHR ''H''" "upper_char (CHR ''h'') = CHR ''H''"
  by code_simp+

lemma contains_ci_nh_inside:
  assumes "n = CHR ''N'' \<or> n = CHR ''n''" and "h = CHR ''H'' \<or> h = CHR ''h''"
  shows "contains_ci ''NH'' (pre @ [n, h] @ post)"
proof -
  have un: "upper_char n = CHR ''N''" using assms(1) upper_char_nh by blast
  have uh: "upper_char h = CHR ''H''" using assms(2) upper_char_nh by blast
  have "upper (pre @ [n, h] @ post) = upper pre @ ''NH'' @ upper post"
    unfolding upper_def by (simp add: un uh)
  then show ?thesis
    unfolding contains_ci_def by (simp only: upper_nh sublist_appendI)
qed

section \<open>Claims about the categorizer\<close>

text \<open>
  C2. Whatever the keyword rules assigned, a transaction whose description contains
  "NH" or "NEW HAMPSHIRE", ignoring case, ends with the category "Law School".
\<close>

theorem nh_override_forces_law_school:
  assumes "well_formed data" and "''Description'' \<in> set (columns data)"
    and "i < length (rows data)"
    and "cell_of (columns data) ''Description'' (rows data ! i) = Str d"
    and "contains_ci ''NH'' d \<or> contains_ci ''NEW HAMPSHIRE'' d"
  shows "\<exists>out. categorize_transactions data = Inr out
           \<and> cell_of (columns out) ''Category'' (rows out ! i) = Str ''Law School''"
proof -
  have ok: "str_accessor_ok (getitem data ''Description'')"
    using assms(3,4) by (rule str_accessor_ok_row)
  from categorize_rows[OF assms(1,2) ok] obtain out where
    out: "categorize_transactions data = Inr out"
    and cat: "\<forall>i<length (rows data). cell_of (columns out) ''Category'' (rows out ! i)
                = Str (final_category (cell_of (columns data) ''Description'' (rows data ! i)))"
    by blast
  have "final_category (Str d) = ''Law School''"
    using assms(5) by (simp only: final_category_def nh_contains if_True)
  with out cat assms(3,4) show ?thesis by simp
qed

theorem nh_override_forces_law_school_witness:
  "well_formed (frame_of [Str ''NETFLIX nh''])
   \<and> contains_ci ''NETFLIX'' ''NETFLIX nh''
   \<and> contains_ci ''NH'' ''NETFLIX nh''
   \<and> (\<exists>out. categorize_transactions (frame_of [Str ''NETFLIX nh'']) = Inr out
           \<and> cell_of (columns out) ''Category'' (rows out ! 0) = Str ''Law School'')"
proof -
  have wf: "well_formed (frame_of [Str ''NETFLIX nh''])" by code_simp
  have d: "''Description'' \<in> set (columns (frame_of [Str ''NETFLIX nh'']))" by code_simp
  have i: "0 < length (rows (frame_of [Str ''NETFLIX nh'']))" by code_simp
  have c: "cell_of (columns (frame_of [Str ''NETFLIX nh''])) ''Description''
             (rows (frame_of [Str ''NETFLIX nh'']) ! 0) = Str ''NETFLIX nh''" by code_simp
  have k: "contains_ci ''NETFLIX'' ''NETFLIX nh''" by code_simp
  have n: "contains_ci ''NH'' ''NETFLIX nh''" by code_simp
  from nh_override_forces_law_school[OF wf d i c] n k wf show ?thesis by blast
qed

text \<open>
  C3. After the keyword loop and before the override, the category of a transaction is the
  one of the last rule of the table, in declaration order, whose keyword its description
  contains, ignoring case. In particular, of two matching keywords the later one wins.
\<close>

theorem later_keyword_wins:
  assumes "well_formed data" and "''Description'' \<in> set (columns data)"
    and "i < length (rows data)"
    and "cell_of (columns data) ''Description'' (rows data ! i) = Str d"
    and "j < length create_category_mapping"
    and "contains_ci (fst (create_category_mapping ! j)) d"
    and "\<forall>l. j < l \<and> l < length create_category_mapping
           \<longrightarrow> \<not> contains_ci (fst (create_category_mapping ! l)) d"
  shows "cell_of
           (columns (apply_keyword_rules create_category_mapping
              (setitem_scalar ''Category'' (Str ''Uncategorized'') data)))
           ''Category''
           (rows (apply_keyword_rules create_category_mapping
              (setitem_scalar ''Category'' (Str ''Uncategorized'') data)) ! i)
         = Str (snd (create_category_mapping ! j))"
proof -
  let ?m = create_category_mapping
  let ?dz = "setitem_scalar ''Category'' (Str ''Uncategorized'') data"
  let ?cols = "columns ?dz"
  let ?r = "rows data ! i"
  let ?ini = "init_row (columns data) ''Category'' (Str ''Uncategorized'') ?r"
  have lit: "CHR ''|'' \<notin> set (fst (?m ! l)) \<and> upper (fst (?m ! l)) = fst (?m ! l)"
    if "l < length ?m" for l
    using mapping_keywords_literal that by (simp add: list_all_length)
  have match: "str_contains (fst (?m ! l)) True (str_upper (Str d)) = contains_ci (fst (?m ! l)) d"
    if "l < length ?m" for l
    using lit[OF that] keyword_contains[of "fst (?m ! l)" d] by blast
  have split: "?m = take j ?m @ (?m ! j) # drop (Suc j) ?m"
    using assms(5) by (rule id_take_nth_drop)
  have after: "\<forall>r\<in>set (drop (Suc j) ?m). \<not> str_contains (fst r) True (str_upper (Str d))"
  proof
    fix r assume "r \<in> set (drop (Suc j) ?m)"
    then obtain n where n: "n < length ?m - Suc j" and r: "r = ?m ! (Suc j + n)"
      by (auto simp: in_set_conv_nth)
    have "Suc j + n < length ?m" and "j < Suc j + n" using n by simp_all
    with assms(7) match[of "Suc j + n"] show "\<not> str_contains (fst r) True (str_upper (Str d))"
      by (simp add: r)
  qed
  have here: "str_contains (fst (?m ! j)) True (str_upper (Str d))"
    using match[OF assms(5)] assms(6) by simp
  have kc: "keyword_category ?m ''Uncategorized'' (Str d) = snd (?m ! j)"
    using keyword_category_last_match[OF here after, of "take j ?m" "''Uncategorized''"] split
    by simp
  have len: "length ?r = length (columns data)"
    using assms(1,3) by (simp add: well_formed_def list_all_length)
  have lenz: "length ?ini = length ?cols"
    using length_init_row[OF len, of "''Category''" "Str ''Uncategorized''" data] by simp
  have cz: "cell_of ?cols ''Category'' ?ini = Str ''Uncategorized''"
    using init_row_same[OF len, of "''Category''" "Str ''Uncategorized''" data] by simp
  have dz: "cell_of ?cols ''Description'' ?ini = Str d"
    using init_row_other[OF len, of "''Description''" "''Category''" "Str ''Uncategorized''" data]
      assms(4) by simp
  have catz: "''Category'' \<in> set ?cols" by (simp add: columns_setitem_scalar)
  have "cell_of ?cols ''Category'' (fold (rule_row ?cols) ?m ?ini) = Str (snd (?m ! j))"
    using cell_of_fold_rule_row_category[OF catz lenz cz, of ?m] by (simp add: dz kc)
  then show ?thesis
    using assms(3) by (simp add: rows_apply_keyword_rules rows_setitem_scalar_init_row)
qed

theorem later_keyword_wins_witness:
  "contains_ci ''NETFLIX'' ''Netflix transfer''
   \<and> contains_ci ''TRANSFER'' ''Netflix transfer''
   \<and> create_category_mapping ! 20 = (''NETFLIX'', ''Subscription'')
   \<and> create_category_mapping ! 29 = (''TRANSFER'', ''Financial'')
   \<and> cell_of
         (columns (apply_keyword_rules create_category_mapping
            (setitem_scalar ''Category'' (Str ''Uncategorized'') (frame_of [Str ''Netflix transfer'']))))
         ''Category''
         (rows (apply_keyword_rules create_category_mapping
            (setitem_scalar ''Category'' (Str ''Uncategorized'') (frame_of [Str ''Netflix transfer'']))) ! 0)
       = Str ''Financial''"
proof -
  let ?d = "''Netflix transfer''"
  have wf: "well_formed (frame_of [Str ?d])" by code_simp
  have d: "''Description'' \<in> set (columns (frame_of [Str ?d]))" by code_simp
  have i: "0 < length (rows (frame_of [Str ?d]))" by code_simp
  have c: "cell_of (columns (frame_of [Str ?d])) ''Description'' (rows (frame_of [Str ?d]) ! 0) = Str ?d"
    by code_simp
  have len: "length create_category_mapping = 32" by code_simp
  have j: "29 < length create_category_mapping" by (simp add: len)
  have a: "create_category_mapping ! 20 = (''NETFLIX'', ''Subscription'')" by code_simp
  have b: "create_category_mapping ! 29 = (''TRANSFER'', ''Financial'')" by code_simp
  have ka: "contains_ci ''NETFLIX'' ?d" by code_simp
  have kb: "contains_ci ''TRANSFER'' ?d" by code_simp
  have m: "contains_ci (fst (create_category_mapping ! 29)) ?d" using kb by (simp add: b)
  have n30: "\<not> contains_ci (fst (create_category_mapping ! 30)) ?d" by code_simp
  have n31: "\<not> contains_ci (fst (create_category_mapping ! 31)) ?d" by code_simp
  have no: "\<forall>l. 29 < l \<and> l < length create_category_mapping
               \<longrightarrow> \<not> contains_ci (fst (create_category_mapping ! l)) ?d"
  proof (intro allI impI)
    fix l assume "29 < l \<and> l < length create_category_mapping"
    then have "l = 30 \<or> l = 31" using len by arith
    then show "\<not> contains_ci (fst (create_category_mapping ! l)) ?d"
      using n30 n31 by blast
  qed
  from later_keyword_wins[OF wf d i c j m no] ka kb a b show ?thesis by simp
qed


text \<open>
  Where the \<open>.str\<close> accessor accepts the description column, the categorizer returns a
  frame with as many rows as it was given, a transaction with a null description ends
  with the category "Uncategorized", and every transaction ends with one category, a
  string: "Uncategorized" or a category of the table.
\<close>

lemma categorize_accepted_column:
  assumes "well_formed data" and "''Description'' \<in> set (columns data)"
    and "str_accessor_ok (getitem data ''Description'')"
  shows "\<exists>out. categorize_transactions data = Inr out
           \<and> length (rows out) = length (rows data)
           \<and> (\<forall>i<length (rows data).
                 (isnull (cell_of (columns data) ''Description'' (rows data ! i))
                    \<longrightarrow> cell_of (columns out) ''Category'' (rows out ! i) = Str ''Uncategorized'')
                 \<and> (\<exists>c \<in> set (''Uncategorized'' # map snd create_category_mapping).
                       cell_of (columns out) ''Category'' (rows out ! i) = Str c))"
proof -
  from categorize_rows[OF assms] obtain out where
    out: "categorize_transactions data = Inr out"
    and len: "length (rows out) = length (rows data)"
    and cat: "\<forall>i<length (rows data). cell_of (columns out) ''Category'' (rows out ! i)
                = Str (final_category (cell_of (columns data) ''Description'' (rows data ! i)))"
    by blast
  have null: "final_category x = ''Uncategorized''" if "isnull x" for x
  proof -
    have "\<not> is_str x" using that by (auto simp: isnull_def)
    moreover have "\<not> str_contains ''NH|NEW HAMPSHIRE'' False x"
      using that by (auto simp: isnull_def)
    ultimately show ?thesis
      by (simp add: final_category_def keyword_category_null)
  qed
  have law: "''Law School'' \<in> set (''Uncategorized'' # map snd create_category_mapping)"
    by code_simp
  have range: "final_category x \<in> set (''Uncategorized'' # map snd create_category_mapping)" for x
  proof (cases "str_contains ''NH|NEW HAMPSHIRE'' False x")
    case True
    then show ?thesis using law by (simp only: final_category_def if_True)
  next
    case False
    then show ?thesis
      using keyword_category_range[of create_category_mapping "''Uncategorized''" x]
      by (simp only: final_category_def if_False)
  qed
  show ?thesis
  proof (intro exI conjI allI impI)
    show "categorize_transactions data = Inr out" by (rule out)
    show "length (rows out) = length (rows data)" by (rule len)
  next
    fix i assume i: "i < length (rows data)"
    assume "isnull (cell_of (columns data) ''Description'' (rows data ! i))"
    with cat i null show "cell_of (columns out) ''Category'' (rows out ! i) = Str ''Uncategorized''"
      by simp
  next
    fix i assume i: "i < length (rows data)"
    from cat i range[of "cell_of (columns data) ''Description'' (rows data ! i)"]
    show "\<exists>c \<in> set (''Uncategorized'' # map snd create_category_mapping).
            cell_of (columns out) ''Category'' (rows out ! i) = Str c"
      by blast
  qed
qed

lemma categorize_accepted_column_example:
  "well_formed (frame_of [NaN, Str ''LUMIS INC payment''])
   \<and> str_accessor_ok (getitem (frame_of [NaN, Str ''LUMIS INC payment'']) ''Description'')
   \<and> (\<exists>out. categorize_transactions (frame_of [NaN, Str ''LUMIS INC payment'']) = Inr out
          \<and> length (rows out) = 2
          \<and> cell_of (columns out) ''Category'' (rows out ! 0) = Str ''Uncategorized'')"
proof -
  let ?f = "frame_of [NaN, Str ''LUMIS INC payment'']"
  have wf: "well_formed ?f" by code_simp
  have d: "''Description'' \<in> set (columns ?f)" by code_simp
  have k: "str_accessor_ok (getitem ?f ''Description'')" by code_simp
  have n: "length (rows ?f) = 2" by code_simp
  have c: "isnull (cell_of (columns ?f) ''Description'' (rows ?f ! 0))" by code_simp
  from categorize_accepted_column[OF wf d k] obtain out where
    o: "categorize_transactions ?f = Inr out" and l: "length (rows out) = length (rows ?f)"
    and a: "\<forall>i<length (rows ?f).
              (isnull (cell_of (columns ?f) ''Description'' (rows ?f ! i))
                 \<longrightarrow> cell_of (columns out) ''Category'' (rows out ! i) = Str ''Uncategorized'')"
    by blast
  have z: "0 < length (rows ?f)" by (simp add: n)
  from a z c have u: "cell_of (columns out) ''Category'' (rows out ! 0) = Str ''Uncategorized''"
    by blast
  have l2: "length (rows out) = 2" using l n by (rule trans)
  from o l2 u have "\<exists>out. categorize_transactions ?f = Inr out
          \<and> length (rows out) = 2
          \<and> cell_of (columns out) ''Category'' (rows out ! 0) = Str ''Uncategorized''"
    by blast
  with wf k show ?thesis by blast
qed

text \<open>
  C9. A transaction with a null description is to end with the category "Uncategorized",
  and every transaction with one category. The code does so only where the accessor
  accepts the column. For a file whose description cells are all blank, or all numbers,
  the column is a float or integer column, the accessor refuses it, and the categorizer
  raises AttributeError: no transaction of the run ends with a category.
\<close>

theorem blank_descriptions_raise:
  "categorize_transactions (frame_of [NaN, NaN]) = Inl AttributeError
   \<and> categorize_transactions (frame_of [Num 1001, Num 1002]) = Inl AttributeError"
  by code_simp

text \<open>
  C10. The override looks for the two letters N and H next to each other anywhere in the
  description, in either case and whatever surrounds them, so also inside a longer word:
  a description containing "Manhattan" ends with the category "Law School".
\<close>

theorem nh_matches_inside_words:
  assumes "well_formed data" and "''Description'' \<in> set (columns data)"
    and "i < length (rows data)"
    and "cell_of (columns data) ''Description'' (rows data ! i) = Str (pre @ [n, h] @ post)"
    and "n = CHR ''N'' \<or> n = CHR ''n''" and "h = CHR ''H'' \<or> h = CHR ''h''"
  shows "\<exists>out. categorize_transactions data = Inr out
           \<and> cell_of (columns out) ''Category'' (rows out ! i) = Str ''Law School''"
proof -
  have "contains_ci ''NH'' (pre @ [n, h] @ post)"
    using assms(5,6) by (rule contains_ci_nh_inside)
  then have fin: "final_category (Str (pre @ [n, h] @ post)) = ''Law School''"
    by (simp only: final_category_def nh_contains if_True simp_thms)
  have ok: "str_accessor_ok (getitem data ''Description'')"
    using assms(3,4) by (rule str_accessor_ok_row)
  from categorize_rows[OF assms(1,2) ok] obtain out where
    out: "categorize_transactions data = Inr out"
    and cat: "\<forall>i<length (rows data). cell_of (columns out) ''Category'' (rows out ! i)
                = Str (final_category (cell_of (columns data) ''Description'' (rows data ! i)))"
    by blast
  from cat assms(3) have "cell_of (columns out) ''Category'' (rows out ! i)
                = Str (final_category (cell_of (columns data) ''Description'' (rows data ! i)))"
    by blast
  then have "cell_of (columns out) ''Category'' (rows out ! i) = Str ''Law School''"
    by (simp only: assms(4) fin)
  with out show ?thesis by blast
qed

theorem nh_matches_inside_words_witness:
  "''Manhattan'' = ''Ma'' @ [CHR ''n'', CHR ''h''] @ ''attan''
   \<and> (\<exists>out. categorize_transactions (frame_of [Str ''Manhattan'']) = Inr out
          \<and> cell_of (columns out) ''Category'' (rows out ! 0) = Str ''Law School'')"
proof -
  let ?f = "frame_of [Str ''Manhattan'']"
  have wf: "well_formed ?f" by code_simp
  have d: "''Description'' \<in> set (columns ?f)" by code_simp
  have i: "0 < length (rows ?f)" by code_simp
  have e: "''Manhattan'' = ''Ma'' @ [CHR ''n'', CHR ''h''] @ ''attan''" by simp
  have c: "cell_of (columns ?f) ''Description'' (rows ?f ! 0)
             = Str (''Ma'' @ [CHR ''n'', CHR ''h''] @ ''attan'')" by code_simp
  have n: "CHR ''n'' = CHR ''N'' \<or> CHR ''n'' = CHR ''n''" by simp
  have h: "CHR ''h'' = CHR ''H'' \<or> CHR ''h'' = CHR ''h''" by simp
  from nh_matches_inside_words[OF wf d i c n h] e show ?thesis by blast
qed

section \<open>Columns of the normalizer\<close>






















section \<open>Claims about the schema normalizer\<close>



end
